theory Spec2Isabelle
  imports Main "HOL-Library.Word"
begin

unbundle bit_operations_syntax

section \<open>Data model of \<open>comm.py\<close>\<close>

text \<open>
  Elements of a Python \<open>bytes\<close>/\<open>bytearray\<close> (and of the \<open>uint8\<close> numpy bitmap) are
  8-bit words; Python's unbounded integers are \<open>int\<close>, counters that never go negative
  are \<open>nat\<close>.
\<close>

type_synonym byte = "8 word"

text \<open>\<open>class Stage(IntEnum)\<close>.\<close>

datatype stage = Idle | CD | LenLSB | LenMSB | Data | CrcLSB | CrcMSB | DC | BA | UiType

text \<open>The exceptions the modelled methods can raise.\<close>

datatype error = ValueError | IndexError

text \<open>\<open>Packet.GetScreen\<close>.\<close>

definition GetScreen :: int where
  "GetScreen = 0x803"

text \<open>
  The attributes of \<open>QuanshengComm\<close> that the protocol engine reads or writes.
  \<open>screen_data\<close> is the numpy array of shape (64, 128): a list of rows.
  \<open>on_screen_update\<close> tells whether a callback is installed; the callback itself belongs
  to the user interface, so only the number of times it was invoked is kept, in
  \<open>notified\<close>.
\<close>

record comm =
  stage :: stage
  data :: "byte list"
  p_len :: nat
  p_cnt :: nat
  screen_data :: "byte list list"
  on_screen_update :: bool
  notified :: nat

text \<open>\<open>np.zeros((64, 128), dtype=np.uint8)\<close>.\<close>

definition zeros :: "byte list list" where
  "zeros = replicate 64 (replicate 128 0)"

text \<open>The state set up by \<open>__init__\<close>.\<close>

definition init :: comm where
  "init = \<lparr>stage = Idle, data = [], p_len = 0, p_cnt = 0, screen_data = zeros,
           on_screen_update = False, notified = 0\<rparr>"

section \<open>Cipher and checksum\<close>

definition xor_array :: "int list" where
  "xor_array = [0x16, 0x6c, 0x14, 0xe6, 0x2e, 0x91, 0x0d, 0x40,
                0x21, 0x35, 0xd5, 0x40, 0x13, 0x03, 0xe9, 0x80]"

text \<open>\<open>crypt\<close>: \<open>byte ^ self.xor_array[xor_index & 15]\<close>.\<close>

definition crypt :: "int \<Rightarrow> int \<Rightarrow> int" where
  "crypt b xor_index = b XOR (xor_array ! nat (xor_index AND 15))"

text \<open>One pass of the loop body of \<open>crc16\<close>.\<close>

definition crc16_round :: "int \<Rightarrow> int" where
  "crc16_round crc =
     (let c = push_bit 1 crc in
      if c > 0xffff then (c XOR 0x1021) AND 0xffff else c)"

text \<open>\<open>crc16\<close>: \<open>crc ^= byte << 8\<close>, then the loop body eight times.\<close>

definition crc16 :: "int \<Rightarrow> int \<Rightarrow> int" where
  "crc16 b crc = fold (\<lambda>_. crc16_round) [0..<8] (crc XOR push_bit 8 b)"

text \<open>
  The reference the specification names: the bit-serial CRC-16 step with polynomial
  \<open>0x1021\<close>, most significant bit first, on a 16-bit register. The byte is XORed into
  the high half; each of the eight rounds shifts the register left by one and XORs the
  polynomial in when the bit shifted out was set.
\<close>

definition crc_ref_round :: "16 word \<Rightarrow> 16 word" where
  "crc_ref_round c = (if bit c 15 then push_bit 1 c XOR 0x1021 else push_bit 1 c)"

definition crc_ref :: "byte \<Rightarrow> 16 word \<Rightarrow> 16 word" where
  "crc_ref b c = (crc_ref_round ^^ 8) (c XOR push_bit 8 (ucast b))"

section \<open>Encoding a command\<close>

text \<open>
  The arguments \<open>send_command\<close> handles: \<open>Union[int, bytes, List[int]]\<close>.
\<close>

datatype arg = IntArg int | BytesArg "byte list" | ListArg "int list"

text \<open>
  Storing a Python integer into a bytearray: \<open>ValueError\<close> unless it is in
  \<open>range(256)\<close>. Every value stored by \<open>send_command\<close> other than a one-byte integer
  argument is masked with \<open>0xFF\<close> or is a \<open>crypt\<close> of a byte, so only that case can raise.
\<close>

definition to_byte :: "int \<Rightarrow> byte" where
  "to_byte v = word_of_int v"

text \<open>The body of the loop over \<open>args\<close>: the bytes one argument appends to \<open>params\<close>.\<close>

fun arg_bytes :: "arg \<Rightarrow> error + byte list" where
  "arg_bytes (IntArg a) =
     (if a \<le> 0xFF then
        (if 0 \<le> a then Inr [to_byte a] else Inl ValueError)
      else if a \<le> 0xFFFF then
        Inr [to_byte (a AND 0xFF), to_byte (drop_bit 8 a AND 0xFF)]
      else
        Inr [to_byte (a AND 0xFF), to_byte (drop_bit 8 a AND 0xFF),
             to_byte (drop_bit 16 a AND 0xFF), to_byte (drop_bit 24 a AND 0xFF)])"
| "arg_bytes (BytesArg bs) = Inr bs"
| "arg_bytes (ListArg vs) = Inr (map (\<lambda>val. to_byte (val AND 0xFF)) vs)"

text \<open>The loop over \<open>args\<close>, with \<open>params\<close> as accumulator; it stops at the first raise.\<close>

fun serialize_args :: "arg list \<Rightarrow> byte list \<Rightarrow> error + byte list" where
  "serialize_args [] params = Inr params"
| "serialize_args (a # as) params =
     (case arg_bytes a of
        Inl e \<Rightarrow> Inl e
      | Inr bs \<Rightarrow> serialize_args as (params @ bs))"

text \<open>
  Slice assignment \<open>buf[i:j] = new\<close> on a bytearray (for \<open>i \<le> j\<close>): the slice is
  clipped to the length of \<open>buf\<close>, so assigning past the end appends.
\<close>

definition set_slice :: "nat \<Rightarrow> nat \<Rightarrow> 'a list \<Rightarrow> 'a list \<Rightarrow> 'a list" where
  "set_slice i j new buf = take i buf @ new @ drop j buf"

text \<open>
  The body of the loop \<open>for i in range(4, len(data))\<close>: the checksum takes the plain
  byte, then the byte is ciphered in place.
\<close>

definition crc_crypt_step :: "nat \<Rightarrow> byte list \<times> int \<Rightarrow> byte list \<times> int" where
  "crc_crypt_step i = (\<lambda>(buf, crc).
     (buf[i := to_byte (crypt (uint (buf ! i)) (int i - 4))],
      crc16 (uint (buf ! i)) crc))"

text \<open>
  \<open>send_command\<close>. The first argument tells whether \<open>self.transport\<close> is set; the
  result is \<open>None\<close> when nothing is written and otherwise the bytes handed to
  \<open>transport.write\<close>.
\<close>

definition send_command :: "bool \<Rightarrow> int \<Rightarrow> arg list \<Rightarrow> error + byte list option" where
  "send_command transport cmd args =
     (if \<not> transport then Inr None
      else
        let d0 = [0xAB, 0xCD, 0x00, 0x00] @
                 [to_byte (cmd AND 0xFF), to_byte (drop_bit 8 cmd AND 0xFF)]
        in case serialize_args args [] of
             Inl e \<Rightarrow> Inl e
           | Inr params \<Rightarrow>
               let param_len = int (length params);
                   d1 = set_slice 6 8
                          [to_byte (param_len AND 0xFF), to_byte (drop_bit 8 param_len AND 0xFF)] d0;
                   d2 = d1 @ params;
                   (d3, crc) = fold crc_crypt_step [4..<length d2] (d2, 0);
                   crc_bytes = [crc AND 0xFF, drop_bit 8 crc AND 0xFF];
                   d4 = d3 @ [to_byte (crypt (crc_bytes ! 0) (int (length d3) - 4)),
                              to_byte (crypt (crc_bytes ! 1) (int (length d3) - 3))];
                   d5 = d4 @ [0xDC, 0xBA];
                   total_len = int (length d5) - 8;
                   d6 = set_slice 2 4
                          [to_byte (total_len AND 0xFF), to_byte (drop_bit 8 total_len AND 0xFF)] d5
               in Inr (Some d6))"

section \<open>Decoding the screen\<close>

text \<open>\<open>screen[pixel_row, col] = v\<close> on the numpy array.\<close>

definition set_pixel :: "nat \<Rightarrow> nat \<Rightarrow> byte \<Rightarrow> byte list list \<Rightarrow> byte list list" where
  "set_pixel r c v screen = screen[r := (screen ! r)[c := v]]"

text \<open>
  The inner loop \<open>for bit in range(8)\<close> of \<open>parse_screen\<close>, over the bits still to do;
  \<open>break\<close> leaves the loop.
\<close>

fun draw_bits :: "nat list \<Rightarrow> byte \<Rightarrow> nat \<Rightarrow> nat \<Rightarrow> byte list list \<Rightarrow> byte list list" where
  "draw_bits [] pixels col row screen = screen"
| "draw_bits (b # bs) pixels col row screen =
     (let pixel_row = row + b in
      if pixel_row \<ge> 64 then screen
      else let is_lit = drop_bit b pixels AND 1
           in draw_bits bs pixels col row (set_pixel pixel_row col is_lit screen))"

text \<open>
  The body of the outer loop for one triplet \<open>data[i], data[i + 1], data[i + 2]\<close>;
  \<open>continue\<close> skips a triplet whose address is out of range.
\<close>

definition draw_triplet :: "byte \<Rightarrow> byte \<Rightarrow> byte \<Rightarrow> byte list list \<Rightarrow> byte list list" where
  "draw_triplet pixels c r screen =
     (let col = unat c; row = unat r * 8 in
      if col \<ge> 128 \<or> row \<ge> 64 then screen
      else draw_bits [0..<8] pixels col row screen)"

text \<open>
  The outer loop \<open>for i in range(0, len(data), 3)\<close>. It runs only after the length check,
  so the payload is a sequence of whole triplets and the last equation is reached with
  the empty list only.
\<close>

fun draw_triplets :: "byte list \<Rightarrow> byte list list \<Rightarrow> byte list list" where
  "draw_triplets (pixels # c # r # rest) screen =
     draw_triplets rest (draw_triplet pixels c r screen)"
| "draw_triplets _ screen = screen"

text \<open>
  Methods that mutate the object return the state after the call together with the
  exception raised, if any.
\<close>

definition parse_screen :: "comm \<Rightarrow> byte list \<Rightarrow> int \<Rightarrow> comm \<times> error option" where
  "parse_screen st payload diff =
     (if length payload mod 3 \<noteq> 0 then (st, Some ValueError)
      else
        let screen = (if diff = 0 then zeros else screen_data st)
        in (st\<lparr>screen_data := draw_triplets payload screen\<rparr>, None))"

section \<open>Dispatching and framing\<close>

definition parse_packet :: "comm \<Rightarrow> byte list \<Rightarrow> comm \<times> error option" where
  "parse_packet st d =
     (if length d < 2 then (st, None)
      else
        let cmd = uint (d ! 0) OR push_bit 8 (uint (d ! 1)) in
        if cmd = GetScreen then
          (if length d \<le> 2 then (st, Some IndexError)
           else if length d \<le> 3 then (st, Some IndexError)
           else if length d \<le> 4 then (st, Some IndexError)
           else
             let diff = uint (d ! 4) in
             case parse_screen st (drop 5 d) diff of
               (st', Some e) \<Rightarrow> (st', Some e)
             | (st', None) \<Rightarrow>
                 (if on_screen_update st' then st'\<lparr>notified := notified st' + 1\<rparr> else st',
                  None))
        else (st, None))"

text \<open>
  \<open>process_byte\<close> returns the state after the call, the accumulator handed to
  \<open>parse_packet\<close> when the call is made, and the exception raised, if any.
\<close>

definition process_byte :: "comm \<Rightarrow> byte \<Rightarrow> comm \<times> byte list option \<times> error option" where
  "process_byte st b =
     (case stage st of
        Idle \<Rightarrow>
          (if b = 0xAB then (st\<lparr>stage := CD\<rparr>, None, None)
           else if b = 0xB5 then (st\<lparr>stage := UiType\<rparr>, None, None)
           else (st, None, None))
      | CD \<Rightarrow> (st\<lparr>stage := (if b = 0xCD then LenLSB else Idle)\<rparr>, None, None)
      | LenLSB \<Rightarrow> (st\<lparr>p_len := unat b, stage := LenMSB\<rparr>, None, None)
      | LenMSB \<Rightarrow>
          (st\<lparr>p_len := p_len st OR push_bit 8 (unat b), data := [], p_cnt := 0,
              stage := Data\<rparr>, None, None)
      | Data \<Rightarrow>
          (let st1 = st\<lparr>data := data st @ [to_byte (crypt (uint b) (int (p_cnt st)))]\<rparr>;
               st2 = st1\<lparr>p_cnt := p_cnt st1 + 1\<rparr>
           in if p_cnt st2 \<ge> p_len st2 then (st2\<lparr>stage := CrcLSB\<rparr>, None, None)
              else (st2, None, None))
      | CrcLSB \<Rightarrow> (st\<lparr>stage := CrcMSB\<rparr>, None, None)
      | CrcMSB \<Rightarrow> (st\<lparr>stage := DC\<rparr>, None, None)
      | DC \<Rightarrow> (st\<lparr>stage := (if b = 0xDC then BA else Idle)\<rparr>, None, None)
      | BA \<Rightarrow>
          (let st1 = st\<lparr>stage := Idle\<rparr> in
           if b = 0xBA then
             (case parse_packet st1 (data st1) of (st2, err) \<Rightarrow> (st2, Some (data st1), err))
           else (st1, None, None))
      | UiType \<Rightarrow> (st, None, None))"

text \<open>
  \<open>QuanshengProtocol.data_received\<close>: the loop \<open>for byte in data\<close>; an exception leaves
  the loop. The result lists the accumulators handed to \<open>parse_packet\<close>, in order.
\<close>

fun data_received :: "comm \<Rightarrow> byte list \<Rightarrow> comm \<times> byte list list \<times> error option" where
  "data_received st [] = (st, [], None)"
| "data_received st (b # bs) =
     (case process_byte st b of
        (st', call, Some e) \<Rightarrow> (st', (case call of None \<Rightarrow> [] | Some d \<Rightarrow> [d]), Some e)
      | (st', call, None) \<Rightarrow>
          (case data_received st' bs of
             (st'', calls, err) \<Rightarrow>
               (st'', (case call of None \<Rightarrow> [] | Some d \<Rightarrow> [d]) @ calls, err)))"

section \<open>Properties of the spec's data, stated on the model\<close>

text \<open>
  The retained bitmap is well formed when it has 64 rows of 128 pixels, each 0 or 1.
\<close>

definition wf_screen :: "byte list list \<Rightarrow> bool" where
  "wf_screen screen \<longleftrightarrow>
     length screen = 64 \<and>
     (\<forall>row \<in> set screen. length row = 128 \<and> (\<forall>v \<in> set row. v = 0 \<or> v = 1))"

text \<open>The pixel at row \<open>r\<close>, column \<open>c\<close>: \<open>screen[r, c]\<close>.\<close>

definition pixel :: "byte list list \<Rightarrow> nat \<Rightarrow> nat \<Rightarrow> byte" where
  "pixel screen r c = screen ! r ! c"

text \<open>
  The wire format of the specification, \<open>AB CD len_lo len_hi <ciphered> DC BA\<close>: the
  ciphered region of a frame is what lies between the four header bytes and the two
  footer bytes.
\<close>

definition ciphered_region :: "byte list \<Rightarrow> byte list" where
  "ciphered_region frame = take (length frame - 6) (drop 4 frame)"

text \<open>The column bytes of the triplets of a screen payload, in order.\<close>

fun triplet_columns :: "byte list \<Rightarrow> byte list" where
  "triplet_columns (pixels # c # r # rest) = c # triplet_columns rest"
| "triplet_columns _ = []"

text \<open>
  The cipher applied to a run of bytes, the first one at keystream position \<open>k\<close>:
  what the loops of \<open>send_command\<close> and of the Data stage do byte by byte.
\<close>

fun crypt_from :: "nat \<Rightarrow> byte list \<Rightarrow> byte list" where
  "crypt_from k [] = []"
| "crypt_from k (b # bs) = to_byte (crypt (uint b) (int k)) # crypt_from (Suc k) bs"

text \<open>A 16-bit value read little-endian from two bytes.\<close>

definition le16 :: "byte \<Rightarrow> byte \<Rightarrow> int" where
  "le16 lo hi = uint lo + 256 * uint hi"

section \<open>The frame decoder\<close>

lemma process_byte_UiType: "stage st = UiType \<Longrightarrow> process_byte st b = (st, None, None)"
  by (simp add: process_byte_def)

lemma data_received_UiType: "stage st = UiType \<Longrightarrow> data_received st bs = (st, [], None)"
  by (induction bs) (simp_all add: process_byte_UiType)

lemma data_received_append:
  "data_received st (xs @ ys) =
     (case data_received st xs of
        (st1, calls1, Some e) \<Rightarrow> (st1, calls1, Some e)
      | (st1, calls1, None) \<Rightarrow>
          (case data_received st1 ys of (st2, calls2, err) \<Rightarrow> (st2, calls1 @ calls2, err)))"
  by (induction xs arbitrary: st) (auto split: prod.splits option.splits)

text \<open>
  C9. The alternate sync byte \<open>0xB5\<close>, received in the Idle stage, moves the decoder to
  the UiType stage, and that stage is absorbing: whatever bytes follow, every call of
  \<open>process_byte\<close> leaves the whole state as it is and hands nothing to \<open>parse_packet\<close>;
  the decoder never returns to Idle.
\<close>

theorem alt_sync_absorbing:
  assumes "stage st = Idle"
  shows "process_byte st 0xB5 = (st\<lparr>stage := UiType\<rparr>, None, None) \<and>
         process_byte (st\<lparr>stage := UiType\<rparr>) b = (st\<lparr>stage := UiType\<rparr>, None, None) \<and>
         data_received st (0xB5 # bs) = (st\<lparr>stage := UiType\<rparr>, [], None)"
  using assms by (simp add: process_byte_def data_received_UiType)

theorem alt_sync_absorbing_witness:
  "stage init = Idle \<and>
   process_byte init 0xB5 = (init\<lparr>stage := UiType\<rparr>, None, None) \<and>
   process_byte (init\<lparr>stage := UiType\<rparr>) 0xAB = (init\<lparr>stage := UiType\<rparr>, None, None) \<and>
   data_received init (0xB5 # [0xAB, 0xCD, 0x01, 0x00]) = (init\<lparr>stage := UiType\<rparr>, [], None)"
proof -
  have idle: "stage init = Idle"
    by (simp add: init_def)
  show ?thesis
    using idle alt_sync_absorbing [OF idle, of "0xAB" "[0xAB, 0xCD, 0x01, 0x00]"] by blast
qed

text \<open>
  C3. The two bytes read in the CrcLSB and CrcMSB stages have no influence: two streams
  that differ only in those two bytes of a frame give the same calls of \<open>parse_packet\<close>,
  the same final state and the same outcome. No frame is rejected for its checksum.
\<close>

theorem checksum_ignored:
  assumes "data_received st xs = (st1, calls, None)" and "stage st1 = CrcLSB"
  shows "data_received st (xs @ [a, b] @ ys) = data_received st (xs @ [a', b'] @ ys)"
proof -
  have "data_received st1 ([a, b] @ ys) = data_received st1 ([a', b'] @ ys)"
    using assms(2) by (simp add: process_byte_def)
  then show ?thesis
    using assms(1) by (simp add: data_received_append)
qed

theorem checksum_ignored_witness:
  "data_received init [0xAB, 0xCD, 0x01, 0x00, 0x55] =
     (init\<lparr>p_len := 1, data := [0x43], p_cnt := 1, stage := CrcLSB\<rparr>, [], None) \<and>
   stage (init\<lparr>p_len := 1, data := [0x43], p_cnt := 1, stage := CrcLSB\<rparr>) = CrcLSB \<and>
   data_received init ([0xAB, 0xCD, 0x01, 0x00, 0x55] @ [0x00, 0x00] @ [0xDC, 0xBA]) =
   data_received init ([0xAB, 0xCD, 0x01, 0x00, 0x55] @ [0x12, 0x34] @ [0xDC, 0xBA])"
proof -
  have run: "data_received init [0xAB, 0xCD, 0x01, 0x00, 0x55] =
     (init\<lparr>p_len := 1, data := [0x43], p_cnt := 1, stage := CrcLSB\<rparr>, [], None)"
    by (simp add: init_def process_byte_def to_byte_def crypt_def xor_array_def)
  have st: "stage (init\<lparr>p_len := 1, data := [0x43], p_cnt := 1, stage := CrcLSB\<rparr>) = CrcLSB"
    by simp
  show ?thesis
    using run st checksum_ignored [OF run st, of "0x00" "0x00" "[0xDC, 0xBA]" "0x12" "0x34"]
    by blast
qed

section \<open>Dispatch\<close>

text \<open>
  C10. \<open>parse_packet\<close> returns early only for an accumulator shorter than two bytes. An
  accumulator of 2, 3 or 4 bytes whose first two bytes read little-endian as GetScreen
  makes it index out of range while it reads the offset and the diff flag: it raises
  IndexError, with the state untouched.
\<close>

theorem short_screen_frame_raises:
  assumes "uint (d ! 0) OR push_bit 8 (uint (d ! 1)) = GetScreen"
    and "length d = 2 \<or> length d = 3 \<or> length d = 4"
  shows "parse_packet st d = (st, Some IndexError)"
  using assms by (auto simp add: parse_packet_def)

theorem short_screen_frame_raises_witness:
  "uint ([0x03, 0x08, 0x00 :: byte] ! 0) OR push_bit 8 (uint ([0x03, 0x08, 0x00 :: byte] ! 1)) = GetScreen \<and>
   (length [0x03, 0x08, 0x00 :: byte] = 2 \<or> length [0x03, 0x08, 0x00 :: byte] = 3 \<or>
    length [0x03, 0x08, 0x00 :: byte] = 4) \<and>
   parse_packet init [0x03, 0x08, 0x00] = (init, Some IndexError)"
proof -
  have cmd: "uint ([0x03, 0x08, 0x00 :: byte] ! 0) OR push_bit 8 (uint ([0x03, 0x08, 0x00 :: byte] ! 1)) = GetScreen"
    by (simp add: GetScreen_def)
  have len: "length [0x03, 0x08, 0x00 :: byte] = 2 \<or> length [0x03, 0x08, 0x00 :: byte] = 3 \<or>
    length [0x03, 0x08, 0x00 :: byte] = 4"
    by simp
  show ?thesis
    using cmd len short_screen_frame_raises [OF cmd len, of init] by blast
qed

text \<open>
  C4. A frame that declares length zero does not go from the Data stage to the checksum
  stages without consuming a byte: \<open>LenMSB\<close> always enters \<open>Data\<close>, and \<open>Data\<close> appends
  the next byte before it compares the count with the length. The byte after the length
  field ends up in the accumulator, and a frame completed from there hands a one-byte
  accumulator to \<open>parse_packet\<close>.
\<close>

theorem zero_length_consumes_byte:
  assumes "stage st = Idle"
  shows "data_received st [0xAB, 0xCD, 0x00, 0x00] =
           (st\<lparr>p_len := 0, data := [], p_cnt := 0, stage := Data\<rparr>, [], None) \<and>
         data_received st [0xAB, 0xCD, 0x00, 0x00, x] =
           (st\<lparr>p_len := 0, data := [to_byte (crypt (uint x) 0)], p_cnt := 1, stage := CrcLSB\<rparr>,
            [], None) \<and>
         data_received st [0xAB, 0xCD, 0x00, 0x00, x, c1, c2, 0xDC, 0xBA] =
           (st\<lparr>p_len := 0, data := [to_byte (crypt (uint x) 0)], p_cnt := 1, stage := Idle\<rparr>,
            [[to_byte (crypt (uint x) 0)]], None)"
  using assms by (simp add: process_byte_def parse_packet_def)

theorem zero_length_consumes_byte_witness:
  "stage init = Idle \<and>
   data_received init [0xAB, 0xCD, 0x00, 0x00, 0x55, 0x00, 0x00, 0xDC, 0xBA] =
     (init\<lparr>p_len := 0, data := [0x43], p_cnt := 1, stage := Idle\<rparr>, [[0x43]], None)"
proof -
  have idle: "stage init = Idle"
    by (simp add: init_def)
  have "to_byte (crypt (uint (0x55 :: byte)) 0) = 0x43"
    by (simp add: to_byte_def crypt_def xor_array_def)
  with idle zero_length_consumes_byte [OF idle, of "0x55" "0x00" "0x00"] show ?thesis
    by simp
qed

section \<open>The screen decoder\<close>

lemma parse_screen_raise:
  "length payload mod 3 \<noteq> 0 \<Longrightarrow> parse_screen st payload diff = (st, Some ValueError)"
  by (simp add: parse_screen_def)

lemma parse_screen_ok:
  "length payload mod 3 = 0 \<Longrightarrow>
   parse_screen st payload diff =
     (st\<lparr>screen_data := draw_triplets payload (if diff = 0 then zeros else screen_data st)\<rparr>, None)"
  by (simp add: parse_screen_def)

lemma parse_packet_screen_raise:
  assumes "uint (d ! 0) OR push_bit 8 (uint (d ! 1)) = GetScreen"
    and "5 \<le> length d" and "(length d - 5) mod 3 \<noteq> 0"
  shows "parse_packet st d = (st, Some ValueError)"
  using assms by (simp add: parse_packet_def parse_screen_raise)

text \<open>
  C5. \<open>parse_screen\<close> raises ValueError exactly when the length of the triplet payload
  is not a multiple of 3, and raises nothing else. When it raises, the object is as
  before the call, the bitmap included. When this happens for a frame, \<open>process_byte\<close>
  has set the stage to Idle before the dispatch, so the state left behind is the state
  before the last byte with the stage Idle: the decoder is ready for the next frame.
\<close>

theorem parse_screen_format_error:
  "(snd (parse_screen st payload diff) = Some ValueError \<longleftrightarrow> length payload mod 3 \<noteq> 0) \<and>
   (snd (parse_screen st payload diff) = None \<longleftrightarrow> length payload mod 3 = 0) \<and>
   (length payload mod 3 \<noteq> 0 \<longrightarrow> fst (parse_screen st payload diff) = st) \<and>
   (stage st = BA \<and> uint (data st ! 0) OR push_bit 8 (uint (data st ! 1)) = GetScreen \<and>
    5 \<le> length (data st) \<and> length (drop 5 (data st)) mod 3 \<noteq> 0 \<longrightarrow>
      process_byte st 0xBA = (st\<lparr>stage := Idle\<rparr>, Some (data st), Some ValueError))"
proof -
  have a: "snd (parse_screen st payload diff) = Some ValueError \<longleftrightarrow> length payload mod 3 \<noteq> 0"
    by (simp add: parse_screen_def)
  have b: "snd (parse_screen st payload diff) = None \<longleftrightarrow> length payload mod 3 = 0"
    by (simp add: parse_screen_def)
  have c: "length payload mod 3 \<noteq> 0 \<longrightarrow> fst (parse_screen st payload diff) = st"
    by (simp add: parse_screen_raise)
  have d: "process_byte st 0xBA = (st\<lparr>stage := Idle\<rparr>, Some (data st), Some ValueError)"
    if "stage st = BA" and "uint (data st ! 0) OR push_bit 8 (uint (data st ! 1)) = GetScreen"
      and "5 \<le> length (data st)" and "length (drop 5 (data st)) mod 3 \<noteq> 0"
  proof -
    have "parse_packet (st\<lparr>stage := Idle\<rparr>) (data st) = (st\<lparr>stage := Idle\<rparr>, Some ValueError)"
      using that(2-4) by (intro parse_packet_screen_raise) simp_all
    with that(1) show ?thesis
      by (simp add: process_byte_def)
  qed
  from a b c d show ?thesis
    by blast
qed

theorem parse_screen_format_error_witness:
  "snd (parse_screen (init\<lparr>stage := BA, data := [0x03, 0x08, 0x00, 0x00, 0x01, 0xFF]\<rparr>) [0xFF] 1)
     = Some ValueError \<and>
   fst (parse_screen (init\<lparr>stage := BA, data := [0x03, 0x08, 0x00, 0x00, 0x01, 0xFF]\<rparr>) [0xFF] 1)
     = init\<lparr>stage := BA, data := [0x03, 0x08, 0x00, 0x00, 0x01, 0xFF]\<rparr> \<and>
   snd (parse_screen init [0xFF, 0x00, 0x00] 1) = None \<and>
   process_byte (init\<lparr>stage := BA, data := [0x03, 0x08, 0x00, 0x00, 0x01, 0xFF]\<rparr>) 0xBA =
     (init\<lparr>stage := Idle, data := [0x03, 0x08, 0x00, 0x00, 0x01, 0xFF]\<rparr>,
      Some [0x03, 0x08, 0x00, 0x00, 0x01, 0xFF], Some ValueError)"
  using parse_screen_format_error
          [of "init\<lparr>stage := BA, data := [0x03, 0x08, 0x00, 0x00, 0x01, 0xFF]\<rparr>" "[0xFF]" 1]
        parse_screen_format_error [of init "[0xFF, 0x00, 0x00]" 1]
  by (simp add: GetScreen_def)

lemma wf_screen_zeros: "wf_screen zeros"
  by (simp add: wf_screen_def zeros_def)

lemma is_lit_01: "drop_bit b (pixels :: byte) AND 1 = 0 \<or> drop_bit b pixels AND 1 = 1"
  by (simp add: and_one_eq mod_2_eq_odd)

lemma wf_screen_set_pixel:
  assumes "wf_screen screen" and "v = 0 \<or> v = 1"
  shows "wf_screen (set_pixel r c v screen)"
proof -
  have row: "length ((screen ! r)[c := v]) = 128 \<and> (\<forall>x \<in> set ((screen ! r)[c := v]). x = 0 \<or> x = 1)"
    if "r < length screen"
  proof -
    from that have "screen ! r \<in> set screen"
      by (rule nth_mem)
    with assms(1) have "length (screen ! r) = 128 \<and> (\<forall>x \<in> set (screen ! r). x = 0 \<or> x = 1)"
      unfolding wf_screen_def by blast
    moreover have "set ((screen ! r)[c := v]) \<subseteq> insert v (set (screen ! r))"
      by (rule set_update_subset_insert)
    ultimately show ?thesis
      using assms(2) by auto
  qed
  show ?thesis
  proof (cases "r < length screen")
    case True
    have "set (screen[r := (screen ! r)[c := v]]) \<subseteq> insert ((screen ! r)[c := v]) (set screen)"
      by (rule set_update_subset_insert)
    with row [OF True] assms(1) show ?thesis
      unfolding wf_screen_def set_pixel_def by auto
  next
    case False
    then show ?thesis
      using assms(1) by (simp add: set_pixel_def list_update_beyond)
  qed
qed

lemma wf_screen_draw_bits:
  "wf_screen screen \<Longrightarrow> wf_screen (draw_bits bs pixels col row screen)"
  by (induction bs arbitrary: screen) (simp_all add: Let_def wf_screen_set_pixel is_lit_01)

lemma wf_screen_draw_triplet:
  "wf_screen screen \<Longrightarrow> wf_screen (draw_triplet pixels c r screen)"
  by (simp add: draw_triplet_def Let_def wf_screen_draw_bits)

lemma wf_screen_draw_triplets:
  "wf_screen screen \<Longrightarrow> wf_screen (draw_triplets payload screen)"
  by (induction payload screen rule: draw_triplets.induct) (simp_all add: wf_screen_draw_triplet)

lemma draw_triplet_discard:
  "unat c \<ge> 128 \<or> unat r * 8 \<ge> 64 \<Longrightarrow> draw_triplet pixels c r screen = screen"
  by (simp add: draw_triplet_def Let_def)

lemma wf_screen_parse_screen:
  "wf_screen (screen_data st) \<Longrightarrow> wf_screen (screen_data (fst (parse_screen st payload diff)))"
  by (simp add: parse_screen_def wf_screen_draw_triplets wf_screen_zeros)

lemma wf_screen_parse_packet:
  assumes "wf_screen (screen_data st)"
  shows "wf_screen (screen_data (fst (parse_packet st d)))"
proof -
  obtain st' err where ps: "parse_screen st (drop 5 d) (uint (d ! 4)) = (st', err)"
    by (cases "parse_screen st (drop 5 d) (uint (d ! 4))")
  have "wf_screen (screen_data st')"
    using wf_screen_parse_screen [OF assms, of "drop 5 d" "uint (d ! 4)"] ps by simp
  with assms ps show ?thesis
    by (cases err) (simp_all add: parse_packet_def Let_def)
qed

lemma wf_screen_process_byte:
  assumes "wf_screen (screen_data st)"
  shows "wf_screen (screen_data (fst (process_byte st b)))"
proof (cases "stage st = BA \<and> b = 0xBA")
  case True
  have "wf_screen (screen_data (fst (parse_packet (st\<lparr>stage := Idle\<rparr>) (data st))))"
    using assms by (intro wf_screen_parse_packet) simp
  with True show ?thesis
    by (auto simp add: process_byte_def split: prod.splits)
next
  case False
  with assms show ?thesis
    by (cases "stage st") (auto simp add: process_byte_def Let_def)
qed

lemma wf_screen_data_received:
  "wf_screen (screen_data st) \<Longrightarrow> wf_screen (screen_data (fst (data_received st bs)))"
proof (induction bs arbitrary: st)
  case Nil
  then show ?case by simp
next
  case (Cons b bs)
  obtain st' call err where pb: "process_byte st b = (st', call, err)"
    by (cases "process_byte st b")
  have wf': "wf_screen (screen_data st')"
    using wf_screen_process_byte [OF Cons.prems, of b] pb by simp
  show ?case
  proof (cases err)
    case None
    with pb Cons.IH [OF wf'] show ?thesis
      by (auto split: prod.splits)
  next
    case (Some e)
    with pb wf' show ?thesis
      by simp
  qed
qed

text \<open>
  C6. The dimensions of the retained bitmap are invariant. A call of \<open>parse_screen\<close>
  with a payload of whole triplets, in full mode or on a bitmap of 64 rows by 128 columns
  of 0/1 values, raises nothing and leaves such a bitmap in \<open>screen_data\<close>. A triplet
  whose column byte is at least 128, or whose row group times 8 is at least 64, is
  skipped: the bitmap after it is the bitmap before it. Starting from the state set up by
  \<open>__init__\<close>, the bitmap has these dimensions after any stream of received bytes.
\<close>

theorem bitmap_dimensions_invariant:
  "(length payload mod 3 = 0 \<and> (diff = 0 \<or> wf_screen (screen_data st)) \<longrightarrow>
      snd (parse_screen st payload diff) = None \<and>
      wf_screen (screen_data (fst (parse_screen st payload diff)))) \<and>
   (unat c \<ge> 128 \<or> unat r * 8 \<ge> 64 \<longrightarrow>
      draw_triplet pixels c r screen = screen \<and>
      draw_triplets (pixels # c # r # rest) screen = draw_triplets rest screen) \<and>
   wf_screen (screen_data (fst (data_received init bs)))"
proof -
  have "wf_screen (screen_data init)"
    by (simp add: init_def wf_screen_zeros)
  then have "wf_screen (screen_data (fst (data_received init bs)))"
    by (rule wf_screen_data_received)
  then show ?thesis
    by (simp add: parse_screen_def Let_def wf_screen_draw_triplets wf_screen_zeros
        draw_triplet_discard)
qed

theorem bitmap_dimensions_invariant_witness:
  "length [0xFF, 0x05, 0x00 :: byte] mod 3 = 0 \<and> wf_screen (screen_data init) \<and>
   snd (parse_screen init [0xFF, 0x05, 0x00] 1) = None \<and>
   wf_screen (screen_data (fst (parse_screen init [0xFF, 0x05, 0x00] 1))) \<and>
   unat (0xC8 :: byte) \<ge> 128 \<and>
   draw_triplet 0xFF 0xC8 0x00 zeros = zeros \<and>
   draw_triplets (0xFF # 0xC8 # 0x00 # [0x01, 0x00, 0x00]) zeros = draw_triplets [0x01, 0x00, 0x00] zeros \<and>
   wf_screen (screen_data (fst (data_received init [0xAB, 0xCD])))"
proof -
  have wf: "wf_screen (screen_data init)"
    by (simp add: init_def wf_screen_zeros)
  have len: "length [0xFF, 0x05, 0x00 :: byte] mod 3 = 0"
    by simp
  have col: "unat (0xC8 :: byte) \<ge> 128"
    by simp
  from wf len col
    bitmap_dimensions_invariant [of "[0xFF, 0x05, 0x00]" 1 init "0xC8" "0x00" "0xFF" zeros
      "[0x01, 0x00, 0x00]" "[0xAB, 0xCD]"]
  show ?thesis
    by simp
qed

lemma pixel_set_pixel_other: "c' \<noteq> c \<Longrightarrow> pixel (set_pixel r c v screen) r' c' = pixel screen r' c'"
  by (cases "r < length screen"; cases "r' = r") (simp_all add: pixel_def set_pixel_def list_update_beyond)

lemma pixel_draw_bits_other:
  "c' \<noteq> col \<Longrightarrow> pixel (draw_bits bs pixels col row screen) r' c' = pixel screen r' c'"
  by (induction bs arbitrary: screen) (simp_all add: Let_def pixel_set_pixel_other)

lemma pixel_draw_triplet_other:
  "c' \<noteq> unat c \<Longrightarrow> pixel (draw_triplet pixels c r screen) r' c' = pixel screen r' c'"
  by (simp add: draw_triplet_def Let_def pixel_draw_bits_other)

lemma pixel_draw_triplets_other:
  "\<forall>x \<in> set (triplet_columns payload). c' \<noteq> unat x \<Longrightarrow>
   pixel (draw_triplets payload screen) r' c' = pixel screen r' c'"
  by (induction payload screen rule: draw_triplets.induct) (simp_all add: pixel_draw_triplet_other)

text \<open>
  C7. An incremental update (\<open>diff\<close> nonzero) whose triplets all name the same in-range
  column \<open>c\<close> leaves every pixel of every other column as it was before the call.
\<close>

theorem incremental_preserves_other_columns:
  assumes "diff \<noteq> 0" and "length payload mod 3 = 0" and "wf_screen (screen_data st)"
    and "\<forall>x \<in> set (triplet_columns payload). x = c" and "unat c < 128"
    and "r' < 64" and "c' < 128" and "c' \<noteq> unat c"
  shows "snd (parse_screen st payload diff) = None \<and>
         pixel (screen_data (fst (parse_screen st payload diff))) r' c' = pixel (screen_data st) r' c'"
proof -
  from assms(4,8) have "\<forall>x \<in> set (triplet_columns payload). c' \<noteq> unat x"
    by auto
  then have "pixel (draw_triplets payload (screen_data st)) r' c' = pixel (screen_data st) r' c'"
    by (rule pixel_draw_triplets_other)
  with assms(1,2) show ?thesis
    by (simp add: parse_screen_def)
qed

theorem incremental_preserves_other_columns_witness:
  "(1::int) \<noteq> 0 \<and> length [0xFF, 0x05, 0x00, 0x0A, 0x05, 0x01 :: byte] mod 3 = 0 \<and>
   wf_screen (screen_data init) \<and>
   triplet_columns [0xFF, 0x05, 0x00, 0x0A, 0x05, 0x01] = [0x05, 0x05] \<and>
   unat (0x05 :: byte) < 128 \<and> (3::nat) < 64 \<and> (4::nat) < 128 \<and> 4 \<noteq> unat (0x05 :: byte) \<and>
   snd (parse_screen init [0xFF, 0x05, 0x00, 0x0A, 0x05, 0x01] 1) = None \<and>
   pixel (screen_data (fst (parse_screen init [0xFF, 0x05, 0x00, 0x0A, 0x05, 0x01] 1))) 3 4 =
   pixel (screen_data init) 3 4"
proof -
  have h1: "(1::int) \<noteq> 0" and h2: "length [0xFF, 0x05, 0x00, 0x0A, 0x05, 0x01 :: byte] mod 3 = 0"
    and h5: "unat (0x05 :: byte) < 128" and h6: "(3::nat) < 64" and h7: "(4::nat) < 128"
    and h8: "4 \<noteq> unat (0x05 :: byte)"
    by simp_all
  have h3: "wf_screen (screen_data init)"
    by (simp add: init_def wf_screen_zeros)
  have h4: "\<forall>x \<in> set (triplet_columns [0xFF, 0x05, 0x00, 0x0A, 0x05, 0x01]). x = 0x05"
    by simp
  have cols: "triplet_columns [0xFF, 0x05, 0x00, 0x0A, 0x05, 0x01] = [0x05, 0x05]"
    by simp
  from h1 h2 h3 cols h5 h6 h7 h8 incremental_preserves_other_columns [OF h1 h2 h3 h4 h5 h6 h7 h8]
  show ?thesis
    by blast
qed

section \<open>The checksum\<close>

lemma mask16: "(0xffff :: int) = mask 16"
  by (simp add: mask_eq_exp_minus_1)

lemma bit15_iff: "bit (w :: 16 word) 15 \<longleftrightarrow> 32768 \<le> uint w"
proof -
  have lt: "uint w < 65536"
    using uint_lt2p [of w] by simp
  have ge: "0 \<le> uint w"
    by simp
  have "bit w 15 \<longleftrightarrow> bit (uint w) 15"
    by (simp add: bit_uint_iff)
  also have "\<dots> \<longleftrightarrow> odd (uint w div 2 ^ 15)"
    by (simp add: bit_iff_odd)
  also have "\<dots> \<longleftrightarrow> 32768 \<le> uint w"
  proof (cases "32768 \<le> uint w")
    case True
    with lt have "uint w div 32768 = 1"
      by simp
    with True show ?thesis by simp
  next
    case False
    with ge have "uint w div 32768 = 0"
      by simp
    with False show ?thesis by simp
  qed
  finally show ?thesis .
qed

lemma uint_shift1: "uint (push_bit 1 (w :: 16 word)) = take_bit 16 (2 * uint w)"
proof -
  have "uint (push_bit 1 w) = take_bit LENGTH(16) (push_bit 1 (uint w))"
    by (simp only: unsigned_push_bit_eq)
  then show ?thesis
    by (simp add: mult.commute)
qed

lemma crc16_round_uint: "crc16_round (uint (w :: 16 word)) = uint (crc_ref_round w)"
proof (cases "bit w 15")
  case True
  then have big: "2 * uint w > 0xffff"
    by (simp add: bit15_iff)
  have "crc16_round (uint w) = (2 * uint w XOR 0x1021) AND 0xffff"
    using big by (simp add: crc16_round_def Let_def mult.commute)
  also have "\<dots> = take_bit 16 (2 * uint w XOR 0x1021)"
    by (simp only: mask16 take_bit_eq_mask)
  also have "\<dots> = take_bit 16 (2 * uint w) XOR take_bit 16 0x1021"
    by (simp only: take_bit_xor)
  also have "take_bit 16 (0x1021 :: int) = uint (0x1021 :: 16 word)"
    by simp
  also have "take_bit 16 (2 * uint w) XOR uint (0x1021 :: 16 word) = uint (push_bit 1 w XOR 0x1021)"
    by (simp only: uint_xor uint_shift1)
  finally show ?thesis
    using True by (simp add: crc_ref_round_def)
next
  case False
  then have small: "2 * uint w < 65536"
    by (simp add: bit15_iff)
  have "crc16_round (uint w) = 2 * uint w"
    using small by (simp add: crc16_round_def Let_def mult.commute)
  also have "\<dots> = take_bit 16 (2 * uint w)"
    using small by (simp add: take_bit_int_eq_self)
  also have "\<dots> = uint (push_bit 1 w)"
    by (simp only: uint_shift1)
  finally show ?thesis
    using False by (simp add: crc_ref_round_def)
qed

lemma crc16_rounds_uint: "(crc16_round ^^ n) (uint (w :: 16 word)) = uint ((crc_ref_round ^^ n) w)"
  by (induction n) (simp_all add: crc16_round_uint)

lemma fold_const_funpow: "fold (\<lambda>_. f) [0..<n] x = (f ^^ n) x"
  by (induction n arbitrary: x) (simp_all)

lemma crc16_start:
  assumes "0 \<le> crc" "crc < 2 ^ 16" "0 \<le> b" "b < 2 ^ 8"
  shows "crc XOR push_bit 8 b = uint ((word_of_int crc :: 16 word) XOR push_bit 8 (ucast (word_of_int b :: byte)))"
proof -
  have c: "uint (word_of_int crc :: 16 word) = crc"
    using assms(1,2) by (simp add: uint_word_of_int)
  have b8: "uint (word_of_int b :: byte) = b"
    using assms(3,4) by (simp add: uint_word_of_int)
  have "take_bit 16 b = b"
    using assms(3,4) by (simp add: take_bit_int_eq_self)
  with b8 have "uint (ucast (word_of_int b :: byte) :: 16 word) = b"
    by (simp add: unsigned_ucast_eq)
  moreover have "push_bit 8 b < (2 :: int) ^ 16"
    using assms(4) by (simp add: push_bit_eq_mult)
  moreover have "0 \<le> push_bit 8 b"
    using assms(3) by simp
  ultimately have "uint (push_bit 8 (ucast (word_of_int b :: byte)) :: 16 word) = push_bit 8 b"
    by (simp add: unsigned_push_bit_eq take_bit_int_eq_self)
  with c show ?thesis
    by (simp only: uint_xor)
qed

text \<open>
  C8. For a running value below \<open>2 ^ 16\<close> and a byte below \<open>2 ^ 8\<close>, \<open>crc16\<close> computes
  the bit-serial CRC-16 step with polynomial \<open>0x1021\<close>, most significant bit first, and
  its result is again below \<open>2 ^ 16\<close>. The method reads nothing but its two arguments
  and writes nothing, so it is the function \<open>crc16\<close> of the two.
\<close>

theorem crc16_refines_reference:
  assumes "0 \<le> crc" and "crc < 2 ^ 16" and "0 \<le> b" and "b < 2 ^ 8"
  shows "crc16 b crc = uint (crc_ref (word_of_int b) (word_of_int crc)) \<and>
         0 \<le> crc16 b crc \<and> crc16 b crc < 2 ^ 16"
proof -
  have "crc16 b crc = (crc16_round ^^ 8) (crc XOR push_bit 8 b)"
    by (simp only: crc16_def fold_const_funpow)
  also have "\<dots> = uint (crc_ref (word_of_int b) (word_of_int crc))"
    by (simp only: crc16_start [OF assms] crc16_rounds_uint crc_ref_def)
  finally have eq: "crc16 b crc = uint (crc_ref (word_of_int b) (word_of_int crc))" .
  have "uint (crc_ref (word_of_int b) (word_of_int crc)) < 2 ^ 16"
    using uint_lt2p [of "crc_ref (word_of_int b) (word_of_int crc)"] by simp
  with eq show ?thesis
    by simp
qed

theorem crc16_refines_reference_witness:
  "(0::int) \<le> 0x1234 \<and> (0x1234::int) < 2 ^ 16 \<and> (0::int) \<le> 0x13 \<and> (0x13::int) < 2 ^ 8 \<and>
   crc16 0x13 0x1234 = uint (crc_ref (word_of_int 0x13) (word_of_int 0x1234)) \<and>
   0 \<le> crc16 0x13 0x1234 \<and> crc16 0x13 0x1234 < 2 ^ 16"
proof -
  have h: "(0::int) \<le> 0x1234" "(0x1234::int) < 2 ^ 16" "(0::int) \<le> 0x13" "(0x13::int) < 2 ^ 8"
    by simp_all
  from h crc16_refines_reference [OF h] show ?thesis
    by blast
qed

section \<open>The cipher\<close>

lemma length_crypt_from [simp]: "length (crypt_from k bs) = length bs"
  by (induction bs arbitrary: k) simp_all

lemma crypt_from_append:
  "crypt_from k (xs @ ys) = crypt_from k xs @ crypt_from (k + length xs) ys"
  by (induction xs arbitrary: k) simp_all

lemma xor_array_nth_bound:
  "i < 16 \<Longrightarrow> 0 \<le> xor_array ! i \<and> xor_array ! i < 256"
proof -
  have "\<forall>v \<in> set xor_array. 0 \<le> v \<and> v < 256"
    by (simp add: xor_array_def)
  moreover have "length xor_array = 16"
    by (simp add: xor_array_def)
  moreover assume "i < 16"
  ultimately have "xor_array ! i \<in> set xor_array"
    by (intro nth_mem) simp
  moreover have "\<forall>v \<in> set xor_array. 0 \<le> v \<and> v < 256"
    by (simp add: xor_array_def)
  ultimately show ?thesis
    by blast
qed

lemma key_index_bound: "nat (i AND 15) < 16"
proof -
  have "i AND 15 \<le> 15"
    by (rule AND_upper2) simp
  moreover have "0 \<le> i AND 15"
    by simp
  ultimately show ?thesis
    by linarith
qed

lemma crypt_involution: "crypt (crypt b i) i = b"
  by (simp add: crypt_def xor.assoc)

lemma crypt_byte_range:
  assumes "0 \<le> b" and "b < 256"
  shows "0 \<le> crypt b i \<and> crypt b i < 256"
proof -
  let ?k = "xor_array ! nat (i AND 15)"
  have k: "0 \<le> ?k \<and> ?k < 256"
    by (rule xor_array_nth_bound) (rule key_index_bound)
  have "b XOR ?k < 2 ^ 8"
    using assms k by (intro XOR_upper) simp_all
  moreover have "0 \<le> b XOR ?k"
    using assms k by simp
  ultimately show ?thesis
    by (simp add: crypt_def)
qed

lemma uint_crypt_byte: "uint (to_byte (crypt (uint (b :: byte)) i)) = crypt (uint b) i"
proof -
  have "uint b < 256"
    using uint_lt2p [of b] by simp
  then have "0 \<le> crypt (uint b) i \<and> crypt (uint b) i < 256"
    by (intro crypt_byte_range) simp_all
  then show ?thesis
    by (simp add: to_byte_def uint_word_of_int)
qed

lemma decrypt_encrypt_byte: "to_byte (crypt (uint (to_byte (crypt (uint (b :: byte)) i))) i) = b"
  unfolding uint_crypt_byte crypt_involution by (simp add: to_byte_def)

lemma crypt_from_involution: "crypt_from k (crypt_from k bs) = bs"
  by (induction bs arbitrary: k) (simp_all add: decrypt_encrypt_byte)


section \<open>The encoding loop and the Data stage\<close>

lemma fold_crc_crypt:
  assumes "4 \<le> n" and "n \<le> length d"
  shows "fst (fold crc_crypt_step [4..<n] (d, c)) =
           take 4 d @ crypt_from 0 (take (n - 4) (drop 4 d)) @ drop n d"
  using assms
proof (induction n)
  case 0
  then show ?case by simp
next
  case (Suc n)
  show ?case
  proof (cases "n < 4")
    case True
    with Suc.prems have n: "n = 3" by simp
    show ?thesis by (simp add: n)
  next
    case False
    then have n4: "4 \<le> n" by simp
    from Suc.prems have nlen: "n < length d" by simp
    let ?pre = "take 4 d @ crypt_from 0 (take (n - 4) (drop 4 d))"
    obtain d' c' where run: "fold crc_crypt_step [4..<n] (d, c) = (d', c')"
      by (cases "fold crc_crypt_step [4..<n] (d, c)")
    from Suc.IH [OF n4] nlen run have d': "d' = ?pre @ drop n d"
      by simp
    have lenpre: "length ?pre = n"
      using n4 nlen by simp
    have dn: "drop n d = d ! n # drop (Suc n) d"
      using nlen by (simp add: Cons_nth_drop_Suc)
    have "(?pre @ d ! n # drop (Suc n) d) ! length ?pre = d ! n"
      by (rule nth_append_length)
    then have nth: "d' ! n = d ! n"
      unfolding d' dn lenpre .
    have "(?pre @ d ! n # drop (Suc n) d)[length ?pre := v] = ?pre @ v # drop (Suc n) d" for v
      by (rule list_update_length)
    then have upd: "d'[n := v] = ?pre @ v # drop (Suc n) d" for v
      unfolding d' dn lenpre .
    have tk: "take (Suc n - 4) (drop 4 d) = take (n - 4) (drop 4 d) @ [d ! n]"
    proof -
      have "Suc n - 4 = Suc (n - 4)"
        using n4 by simp
      moreover have "drop 4 d ! (n - 4) = d ! n"
        using n4 nlen by simp
      moreover have "n - 4 < length (drop 4 d)"
        using n4 nlen by simp
      ultimately show ?thesis
        by (simp add: take_Suc_conv_app_nth)
    qed
    have "fold crc_crypt_step [4..<Suc n] (d, c) = crc_crypt_step n (d', c')"
      using n4 run by simp
    then have "fst (fold crc_crypt_step [4..<Suc n] (d, c)) =
                 ?pre @ to_byte (crypt (uint (d ! n)) (int n - 4)) # drop (Suc n) d"
      by (simp add: crc_crypt_step_def upd nth)
    also have "\<dots> = take 4 d @ crypt_from 0 (take (Suc n - 4) (drop 4 d)) @ drop (Suc n) d"
      unfolding tk using n4 nlen by (auto simp add: crypt_from_append of_nat_diff min_def)
    finally show ?thesis .
  qed
qed

lemma data_stage_run:
  assumes "stage st = Data" and "p_len st = p_cnt st + Suc (length xs)"
  shows "data_received st (x # xs) =
           (st\<lparr>data := data st @ crypt_from (p_cnt st) (x # xs),
               p_cnt := p_cnt st + Suc (length xs), stage := CrcLSB\<rparr>, [], None)"
  using assms
proof (induction xs arbitrary: st x)
  case Nil
  then show ?case
    by (simp add: process_byte_def)
next
  case (Cons y ys)
  let ?st1 = "st\<lparr>data := data st @ [to_byte (crypt (uint x) (int (p_cnt st)))],
                   p_cnt := p_cnt st + 1\<rparr>"
  have step: "process_byte st x = (?st1, None, None)"
    using Cons.prems by (simp add: process_byte_def)
  have "data_received ?st1 (y # ys) =
          (?st1\<lparr>data := data ?st1 @ crypt_from (p_cnt ?st1) (y # ys),
                 p_cnt := p_cnt ?st1 + Suc (length ys), stage := CrcLSB\<rparr>, [], None)"
    using Cons.prems by (intro Cons.IH) simp_all
  with step show ?case
    by simp
qed


section \<open>Little-endian fields\<close>

lemma and_255: "(x :: int) AND 0xFF = x mod 256"
proof -
  have "(0xFF :: int) = mask 8"
    by (simp add: mask_eq_exp_minus_1)
  then have "x AND 0xFF = take_bit 8 x"
    by (simp only: take_bit_eq_mask)
  then show ?thesis
    by (simp add: take_bit_eq_mod)
qed

lemma uint_low_byte: "uint (to_byte (x AND 0xFF)) = x mod 256"
  by (simp add: to_byte_def uint_word_of_int and_255)

lemma uint_high_byte: "uint (to_byte (drop_bit 8 x AND 0xFF)) = x div 256 mod 256"
  by (simp add: to_byte_def uint_word_of_int and_255 drop_bit_eq_div)

lemma le16_bytes: "le16 (to_byte (x AND 0xFF)) (to_byte (drop_bit 8 x AND 0xFF)) = x mod 65536"
proof -
  have "x mod (256 * 256) = 256 * (x div 256 mod 256) + x mod 256"
    by (rule zmod_zmult2_eq) simp
  then show ?thesis
    unfolding le16_def uint_low_byte by (simp add: drop_bit_eq_div)
qed

lemma or_shift8: "unat (lo :: byte) OR push_bit 8 (unat (hi :: byte)) = unat lo + 256 * unat hi"
proof -
  have lo: "take_bit 8 (unat lo) = unat lo"
    using unsigned_less [of lo, where ?'a = nat] by (simp add: take_bit_nat_eq_self)
  have "take_bit 8 (unat lo) AND push_bit 8 (unat hi) = 0"
    by (simp add: bit_eq_iff bit_simps)
  then have "take_bit 8 (unat lo) + push_bit 8 (unat hi) = take_bit 8 (unat lo) OR push_bit 8 (unat hi)"
    by (rule disjunctive_add_eq_or)
  then show ?thesis
    unfolding lo by (simp add: push_bit_eq_mult)
qed

lemma decode_length:
  assumes "0 \<le> x" and "x < 65536"
  shows "unat (to_byte (x AND 0xFF)) OR push_bit 8 (unat (to_byte (drop_bit 8 x AND 0xFF))) = nat x"
proof -
  have "int (unat (to_byte (x AND 0xFF)) + 256 * unat (to_byte (drop_bit 8 x AND 0xFF)))
          = le16 (to_byte (x AND 0xFF)) (to_byte (drop_bit 8 x AND 0xFF))"
    by (simp add: le16_def)
  also have "\<dots> = x"
    using assms by (simp add: le16_bytes)
  finally show ?thesis
    unfolding or_shift8 by linarith
qed

section \<open>Frames written by send_command and their decoding\<close>

lemma send_command_frame:
  fixes cmd :: int and params :: "byte list"
  assumes "serialize_args args [] = Inr params"
  defines "plain \<equiv> [to_byte (cmd AND 0xFF), to_byte (drop_bit 8 cmd AND 0xFF),
                     to_byte (int (length params) AND 0xFF),
                     to_byte (drop_bit 8 (int (length params)) AND 0xFF)] @ params"
  shows "\<exists>x y. send_command True cmd args =
           Inr (Some ([0xAB, 0xCD, to_byte (int (length plain) AND 0xFF),
                       to_byte (drop_bit 8 (int (length plain)) AND 0xFF)] @
                      crypt_from 0 plain @ [x, y, 0xDC, 0xBA]))"
proof -
  let ?d2 = "set_slice 6 8
       [to_byte (int (length params) AND 0xFF), to_byte (drop_bit 8 (int (length params)) AND 0xFF)]
       ([0xAB, 0xCD, 0x00, 0x00] @ [to_byte (cmd AND 0xFF), to_byte (drop_bit 8 cmd AND 0xFF)])
       @ params"
  have d2_eq: "?d2 = [0xAB, 0xCD, 0x00, 0x00] @ plain"
    by (simp add: set_slice_def plain_def)
  obtain d3 crc where run: "fold crc_crypt_step [4..<length ?d2] (?d2, 0) = (d3, crc)"
    by (cases "fold crc_crypt_step [4..<length ?d2] (?d2, 0)")
  have "fst (fold crc_crypt_step [4..<length ?d2] (?d2, 0)) =
          take 4 ?d2 @ crypt_from 0 (take (length ?d2 - 4) (drop 4 ?d2)) @ drop (length ?d2) ?d2"
    by (rule fold_crc_crypt) (unfold d2_eq, simp_all)
  then have "d3 =
          take 4 ?d2 @ crypt_from 0 (take (length ?d2 - 4) (drop 4 ?d2)) @ drop (length ?d2) ?d2"
    unfolding run fst_conv .
  also have "\<dots> = [0xAB, 0xCD, 0x00, 0x00] @ crypt_from 0 plain"
    unfolding d2_eq by simp
  finally have d3: "d3 = [0xAB, 0xCD, 0x00, 0x00] @ crypt_from 0 plain" .
  have len: "int (length ((d3 @ [x, y]) @ [0xDC, 0xBA])) - 8 = int (length plain)" for x y :: byte
    by (simp add: d3)
  have "send_command True cmd args = Inr (Some (set_slice 2 4
          [to_byte (int (length plain) AND 0xFF), to_byte (drop_bit 8 (int (length plain)) AND 0xFF)]
          ((d3 @ [to_byte (crypt ([crc AND 0xFF, drop_bit 8 crc AND 0xFF] ! 0) (int (length d3) - 4)),
                  to_byte (crypt ([crc AND 0xFF, drop_bit 8 crc AND 0xFF] ! 1) (int (length d3) - 3))])
           @ [0xDC, 0xBA])))"
    unfolding send_command_def Let_def assms(1) not_True_eq_False if_False sum.case run prod.case len
    by (rule refl)
  then show ?thesis
    by (simp add: set_slice_def d3)
qed


lemma header_run:
  assumes "stage st = Idle" and "0 \<le> x" and "x < 65536"
  shows "data_received st [0xAB, 0xCD, to_byte (x AND 0xFF), to_byte (drop_bit 8 x AND 0xFF)] =
           (st\<lparr>p_len := nat x, data := [], p_cnt := 0, stage := Data\<rparr>, [], None)"
  using assms(1) decode_length [OF assms(2,3)] by (simp add: process_byte_def)

lemma trailer_run:
  assumes "stage st = CrcLSB"
  shows "\<exists>st' err. data_received st [x, y, 0xDC, 0xBA] = (st', [data st], err)"
proof -
  obtain st' err where "parse_packet (st\<lparr>stage := Idle\<rparr>) (data st) = (st', err)"
    by (cases "parse_packet (st\<lparr>stage := Idle\<rparr>) (data st)")
  with assms have "data_received st [x, y, 0xDC, 0xBA] = (st', [data st], err)"
    by (cases err) (simp_all add: process_byte_def)
  then show ?thesis
    by blast
qed

lemma decode_frame:
  assumes "stage st = Idle" and "plain \<noteq> []" and "length plain < 65536"
  shows "\<exists>st' err. data_received st
           ([0xAB, 0xCD, to_byte (int (length plain) AND 0xFF),
             to_byte (drop_bit 8 (int (length plain)) AND 0xFF)] @
            crypt_from 0 plain @ [x, y, 0xDC, 0xBA]) = (st', [plain], err)"
proof -
  let ?hdr = "[0xAB, 0xCD, to_byte (int (length plain) AND 0xFF),
               to_byte (drop_bit 8 (int (length plain)) AND 0xFF)]"
  let ?st1 = "st\<lparr>p_len := nat (int (length plain)), data := [], p_cnt := 0, stage := Data\<rparr>"
  have hdr: "data_received st ?hdr = (?st1, [], None)"
    using assms(1,3) by (intro header_run) simp_all
  obtain c cs where ccs: "crypt_from 0 plain = c # cs"
    using assms(2) by (cases plain) simp_all
  then have lcs: "length plain = Suc (length cs)"
    by (metis length_crypt_from length_Cons)
  let ?st2 = "?st1\<lparr>data := data ?st1 @ crypt_from (p_cnt ?st1) (c # cs),
                    p_cnt := p_cnt ?st1 + Suc (length cs), stage := CrcLSB\<rparr>"
  have body: "data_received ?st1 (c # cs) = (?st2, [], None)"
    by (rule data_stage_run) (simp_all add: lcs)
  have "crypt_from 0 (c # cs) = plain"
    unfolding ccs [symmetric] by (rule crypt_from_involution)
  then have acc: "data ?st2 = plain"
    by simp
  have "stage ?st2 = CrcLSB"
    by simp
  then obtain st' err where "data_received ?st2 [x, y, 0xDC, 0xBA] = (st', [data ?st2], err)"
    using trailer_run by blast
  then have tail: "data_received ?st2 [x, y, 0xDC, 0xBA] = (st', [plain], err)"
    unfolding acc .
  have step2: "data_received ?st1 ((c # cs) @ [x, y, 0xDC, 0xBA]) = (st', [plain], err)"
    by (simp only: data_received_append [of ?st1 "c # cs"] body tail prod.case option.case append_Nil)
  have "data_received st (?hdr @ (c # cs) @ [x, y, 0xDC, 0xBA]) = (st', [plain], err)"
    by (simp only: data_received_append [of st ?hdr] hdr step2 prod.case option.case append_Nil)
  then show ?thesis
    unfolding ccs by blast
qed


lemma keypress_frame:
  "send_command True 0x801 [IntArg 19] =
     Inr (Some [0xAB, 0xCD, 0x05, 0x00, 0x17, 0x64, 0x15, 0xE6, 0x3D, 0x61, 0x37, 0xDC, 0xBA])"
  by (simp add: send_command_def set_slice_def crc_crypt_step_def crypt_def xor_array_def
      crc16_def crc16_round_def to_byte_def upt_rec)

lemma keypress_decoded:
  "fst (snd (data_received init
      [0xAB, 0xCD, 0x05, 0x00, 0x17, 0x64, 0x15, 0xE6, 0x3D, 0x61, 0x37, 0xDC, 0xBA])) =
     [[0x01, 0x08, 0x01, 0x00, 0x13]]"
  by (simp add: init_def process_byte_def parse_packet_def GetScreen_def to_byte_def crypt_def
      xor_array_def)

text \<open>
  The command \<open>KeyPress\<close> with the argument 19: the frame written, and what the decoder
  hands to \<open>parse_packet\<close> when fed that frame. The accumulator carries the two bytes of
  the parameter length between the command id and the argument.
\<close>

theorem roundtrip_counterexample:
  "send_command True 0x801 [IntArg 19] =
     Inr (Some [0xAB, 0xCD, 0x05, 0x00, 0x17, 0x64, 0x15, 0xE6, 0x3D, 0x61, 0x37, 0xDC, 0xBA]) \<and>
   serialize_args [IntArg 19] [] = Inr [0x13] \<and>
   fst (snd (data_received init
      [0xAB, 0xCD, 0x05, 0x00, 0x17, 0x64, 0x15, 0xE6, 0x3D, 0x61, 0x37, 0xDC, 0xBA])) =
     [[0x01, 0x08, 0x01, 0x00, 0x13]] \<and>
   drop 2 [0x01, 0x08, 0x01, 0x00, 0x13 :: byte] \<noteq> [0x13]"
  using keypress_frame keypress_decoded by (simp add: to_byte_def)

text \<open>
  C1 (as amended). For a 16-bit command id and arguments that serialize without raising
  to \<open>params\<close>, with command id, length field and \<open>params\<close> together at most \<open>0xFFFF\<close>
  bytes, \<open>send_command\<close> writes a frame, and feeding that frame byte by byte to the decoder
  in the Idle stage makes exactly one call of \<open>parse_packet\<close>. Its accumulator starts with
  the command id, little-endian, then holds the length of \<open>params\<close>, little-endian on two
  bytes, and then \<open>params\<close>.
\<close>

theorem roundtrip:
  assumes "stage st = Idle" and "0 \<le> cmd" and "cmd < 2 ^ 16"
    and "serialize_args args [] = Inr params" and "length params + 4 \<le> 0xFFFF"
  shows "\<exists>frame. send_command True cmd args = Inr (Some frame) \<and>
           (\<exists>acc. fst (snd (data_received st frame)) = [acc] \<and>
                  le16 (acc ! 0) (acc ! 1) = cmd \<and>
                  le16 (acc ! 2) (acc ! 3) = int (length params) \<and>
                  drop 4 acc = params)"
proof -
  let ?plain = "[to_byte (cmd AND 0xFF), to_byte (drop_bit 8 cmd AND 0xFF),
                 to_byte (int (length params) AND 0xFF),
                 to_byte (drop_bit 8 (int (length params)) AND 0xFF)] @ params"
  let ?hdr = "[0xAB, 0xCD, to_byte (int (length ?plain) AND 0xFF),
               to_byte (drop_bit 8 (int (length ?plain)) AND 0xFF)]"
  obtain x y where frame:
    "send_command True cmd args = Inr (Some (?hdr @ crypt_from 0 ?plain @ [x, y, 0xDC, 0xBA]))"
    using send_command_frame [OF assms(4), of cmd] by blast
  have "?plain \<noteq> []" and "length ?plain < 65536"
    using assms(5) by simp_all
  with assms(1) obtain st' err where
    "data_received st (?hdr @ crypt_from 0 ?plain @ [x, y, 0xDC, 0xBA]) = (st', [?plain], err)"
    using decode_frame [of st ?plain x y] by blast
  then have calls: "fst (snd (data_received st (?hdr @ crypt_from 0 ?plain @ [x, y, 0xDC, 0xBA])))
      = [?plain]"
    by simp
  have c: "le16 (?plain ! 0) (?plain ! 1) = cmd"
    using assms(2,3) by (simp add: le16_bytes)
  have l: "le16 (?plain ! 2) (?plain ! 3) = int (length params)"
    using assms(5) by (simp add: le16_bytes)
  have d: "drop 4 ?plain = params"
    by simp
  from frame calls c l d show ?thesis
    by blast
qed

theorem roundtrip_witness:
  "stage init = Idle \<and> (0::int) \<le> 0x801 \<and> (0x801::int) < 2 ^ 16 \<and>
   serialize_args [IntArg 19] [] = Inr [0x13] \<and> length [0x13 :: byte] + 4 \<le> 0xFFFF \<and>
   (\<exists>frame. send_command True 0x801 [IntArg 19] = Inr (Some frame) \<and>
      (\<exists>acc. fst (snd (data_received init frame)) = [acc] \<and>
             le16 (acc ! 0) (acc ! 1) = 0x801 \<and>
             le16 (acc ! 2) (acc ! 3) = int (length [0x13 :: byte]) \<and>
             drop 4 acc = [0x13]))"
proof -
  have h1: "stage init = Idle"
    by (simp add: init_def)
  have h2: "(0::int) \<le> 0x801" and h3: "(0x801::int) < 2 ^ 16"
    by simp_all
  have h4: "serialize_args [IntArg 19] [] = Inr [0x13]"
    by (simp add: to_byte_def)
  have h5: "length [0x13 :: byte] + 4 \<le> 0xFFFF"
    by simp
  from h1 h2 h3 h4 h5 roundtrip [OF h1 h2 h3 h4 h5] show ?thesis
    by blast
qed

text \<open>
  The same frame: its length field reads 5, while 7 bytes lie between the header and
  the footer.
\<close>

theorem length_field_counterexample:
  "send_command True 0x801 [IntArg 19] =
     Inr (Some [0xAB, 0xCD, 0x05, 0x00, 0x17, 0x64, 0x15, 0xE6, 0x3D, 0x61, 0x37, 0xDC, 0xBA]) \<and>
   le16 ([0xAB, 0xCD, 0x05, 0x00, 0x17, 0x64, 0x15, 0xE6, 0x3D, 0x61, 0x37, 0xDC, 0xBA] ! 2)
        ([0xAB, 0xCD, 0x05, 0x00, 0x17, 0x64, 0x15, 0xE6, 0x3D, 0x61, 0x37, 0xDC, 0xBA] ! 3) = 5 \<and>
   length (ciphered_region
        [0xAB, 0xCD, 0x05, 0x00, 0x17, 0x64, 0x15, 0xE6, 0x3D, 0x61, 0x37, 0xDC, 0xBA]) = 7"
  using keypress_frame by (simp add: le16_def ciphered_region_def)

text \<open>
  C2 (as amended). The length field in bytes 2 and 3 of a frame written by \<open>send_command\<close>
  counts the ciphered bytes without the two checksum bytes: command id, two bytes of
  parameter length and the serialized arguments, modulo \<open>2 ^ 16\<close>. The ciphered region
  of the frame is two bytes longer.
\<close>

theorem length_field:
  assumes "send_command True cmd args = Inr (Some frame)"
  shows "\<exists>params. serialize_args args [] = Inr params \<and>
           length (ciphered_region frame) = 2 + 2 + length params + 2 \<and>
           le16 (frame ! 2) (frame ! 3) = int (2 + 2 + length params) mod 65536"
proof (cases "serialize_args args []")
  case (Inl e)
  with assms show ?thesis
    by (simp add: send_command_def)
next
  case (Inr params)
  let ?plain = "[to_byte (cmd AND 0xFF), to_byte (drop_bit 8 cmd AND 0xFF),
                 to_byte (int (length params) AND 0xFF),
                 to_byte (drop_bit 8 (int (length params)) AND 0xFF)] @ params"
  let ?hdr = "[0xAB, 0xCD, to_byte (int (length ?plain) AND 0xFF),
               to_byte (drop_bit 8 (int (length ?plain)) AND 0xFF)]"
  obtain x y where
    "send_command True cmd args = Inr (Some (?hdr @ crypt_from 0 ?plain @ [x, y, 0xDC, 0xBA]))"
    using send_command_frame [OF Inr, of cmd] by blast
  with assms have frame: "frame = ?hdr @ crypt_from 0 ?plain @ [x, y, 0xDC, 0xBA]"
    by simp
  have "length (ciphered_region frame) = 2 + 2 + length params + 2"
    unfolding frame by (simp add: ciphered_region_def)
  moreover have "le16 (frame ! 2) (frame ! 3) = int (2 + 2 + length params) mod 65536"
    unfolding frame by (simp add: le16_bytes)
  ultimately show ?thesis
    using Inr by blast
qed

theorem length_field_witness:
  "send_command True 0x801 [IntArg 19] =
     Inr (Some [0xAB, 0xCD, 0x05, 0x00, 0x17, 0x64, 0x15, 0xE6, 0x3D, 0x61, 0x37, 0xDC, 0xBA]) \<and>
   (\<exists>params. serialize_args [IntArg 19] [] = Inr params \<and>
      length (ciphered_region
         [0xAB, 0xCD, 0x05, 0x00, 0x17, 0x64, 0x15, 0xE6, 0x3D, 0x61, 0x37, 0xDC, 0xBA]) =
        2 + 2 + length params + 2 \<and>
      le16 ([0xAB, 0xCD, 0x05, 0x00, 0x17, 0x64, 0x15, 0xE6, 0x3D, 0x61, 0x37, 0xDC, 0xBA] ! 2)
           ([0xAB, 0xCD, 0x05, 0x00, 0x17, 0x64, 0x15, 0xE6, 0x3D, 0x61, 0x37, 0xDC, 0xBA] ! 3) =
        int (2 + 2 + length params) mod 65536)"
  using keypress_frame length_field [OF keypress_frame] by blast


section \<open>Arguments that serialize\<close>

lemma arg_bytes_nonneg:
  "(\<And>v. a = IntArg v \<Longrightarrow> 0 \<le> v) \<Longrightarrow> \<exists>bs. arg_bytes a = Inr bs"
  by (cases a) simp_all

lemma serialize_args_nonneg:
  "(\<And>v. IntArg v \<in> set args \<Longrightarrow> 0 \<le> v) \<Longrightarrow> \<exists>params. serialize_args args acc = Inr params"
proof (induction args arbitrary: acc)
  case Nil
  then show ?case by simp
next
  case (Cons a args)
  have "\<exists>bs. arg_bytes a = Inr bs"
    using Cons.prems by (intro arg_bytes_nonneg) simp
  then obtain bs where "arg_bytes a = Inr bs" ..
  moreover have "\<exists>params. serialize_args args (acc @ bs) = Inr params"
    using Cons.prems by (intro Cons.IH) simp
  ultimately show ?case
    by simp
qed

end
